theory Spec2Isabelle
  imports Main "HOL-Library.AList" "HOL-Library.Sublist"
begin

section \<open>JavaScript strings and objects, as far as the router uses them\<close>

text \<open>
  A path is a JavaScript string; the model reads it as a list of characters, so
  \<open>path.length\<close> is \<open>length path\<close>. The router only calls \<open>slice\<close> with two
  non-negative indices, \<open>indexOf\<close> with a one-character needle and a non-negative start,
  and \<open>startsWith\<close>/\<open>endsWith\<close> with a one-character argument.

  \<open>s.slice(a, b)\<close> clamps both indices to the length and is empty when \<open>b \<le> a\<close>.
\<close>

definition slice :: "string \<Rightarrow> nat \<Rightarrow> nat \<Rightarrow> string" where
  "slice s a b = take (b - a) (drop a s)"

primrec firstIndex :: "char \<Rightarrow> string \<Rightarrow> nat option" where
  "firstIndex c [] = None"
| "firstIndex c (x # xs) = (if x = c then Some 0 else map_option Suc (firstIndex c xs))"

text \<open>\<open>s.indexOf(c, fromIndex)\<close>: the result \<open>-1\<close> of JavaScript is \<open>None\<close>.\<close>

definition indexOf :: "string \<Rightarrow> char \<Rightarrow> nat \<Rightarrow> nat option" where
  "indexOf s c fromIndex = map_option (\<lambda>k. fromIndex + k) (firstIndex c (drop fromIndex s))"

definition startsWith :: "string \<Rightarrow> char \<Rightarrow> bool" where
  "startsWith s c = (case s of [] \<Rightarrow> False | x # _ \<Rightarrow> x = c)"

definition endsWith :: "string \<Rightarrow> char \<Rightarrow> bool" where
  "endsWith s c = (s \<noteq> [] \<and> last s = c)"

text \<open>
  The three-step search that \<open>Params.#parseParams\<close> and \<open>Tree.#traverseForHandler\<close>
  both spell out: the first \<open>/\<close> at or after \<open>start\<close>, else the first \<open>?\<close>, else the
  length of the string.
\<close>

definition endIndexFrom :: "string \<Rightarrow> nat \<Rightarrow> nat" where
  "endIndexFrom path start =
     (case indexOf path CHR ''/'' start of
        Some e \<Rightarrow> e
      | None \<Rightarrow> (case indexOf path CHR ''?'' start of
                   Some e \<Rightarrow> e
                 | None \<Rightarrow> length path))"

text \<open>
  The router keeps its dictionaries in object literals \<open>{}\<close>. Such an object has the own
  properties that were assigned to it, kept here as an association list, and it inherits
  the properties of \<open>Object.prototype\<close>. A read \<open>obj[key]\<close> of a key that is no own
  property but one of the names below yields the inherited member (a function, or the
  prototype object for \<open>__proto__\<close>), which is truthy and is no instance of any class of
  the router.
\<close>

definition objectPrototypeKeys :: "string list" where
  "objectPrototypeKeys =
     [''constructor'', ''__defineGetter__'', ''__defineSetter__'', ''hasOwnProperty'',
      ''__lookupGetter__'', ''__lookupSetter__'', ''isPrototypeOf'', ''propertyIsEnumerable'',
      ''toString'', ''valueOf'', ''__proto__'', ''toLocaleString'']"

datatype 'a property = Own 'a | Inherited | Missing

definition getProperty :: "(string \<times> 'a) list \<Rightarrow> string \<Rightarrow> 'a property" where
  "getProperty obj key =
     (case map_of obj key of
        Some v \<Rightarrow> Own v
      | None \<Rightarrow> if key \<in> set objectPrototypeKeys then Inherited else Missing)"

text \<open>
  \<open>parsedParams\<close> is such an object too; the list holds its own properties in the
  order of their first assignment. \<open>parsedParams[name] = paramValue\<close> with a string on
  the right creates or overwrites the own property, except for the name \<open>__proto__\<close>,
  where the inherited setter is called and ignores a value that is neither an object nor
  null.
\<close>

type_synonym parsedParams = "(string \<times> string) list"

definition setParsedParam :: "parsedParams \<Rightarrow> string \<Rightarrow> string \<Rightarrow> parsedParams" where
  "setParsedParam parsedParams key v =
     (if key = ''__proto__'' then parsedParams else AList.update key v parsedParams)"

text \<open>
  A handler is a function object: the router stores the reference and calls it, nothing
  else. \<open>noopFn\<close> is the module's own constant; the functions of the caller are
  numbered, \<open>Fn n\<close> being the reference to the \<open>n\<close>-th of them. \<open>jsval\<close> are the values
  a caller can pass where the router expects a path or a handler.
\<close>

datatype fn = noopFn | Fn nat

datatype jsval = Str string | Fun fn | Num int | Bool bool | Undefined | Null

fun typeof :: "jsval \<Rightarrow> string" where
  "typeof (Str _) = ''string''"
| "typeof (Fun _) = ''function''"
| "typeof (Num _) = ''number''"
| "typeof (Bool _) = ''boolean''"
| "typeof Undefined = ''undefined''"
| "typeof Null = ''object''"

datatype error = AssertionError string | TypeError

section \<open>Params: the parameter index of a registration path\<close>

record param =
  name :: string
  startIndex :: nat
  endIndex :: nat

text \<open>
  \<open>Params.#parseParams\<close>: the loop condition \<open>0 < (nextParamStartIndex = indexOf(':', nextParamEndIndex))\<close>
  stops on \<open>-1\<close> and on \<open>0\<close>. The list is \<open>#foundParams\<close> in push order, from the cursor
  \<open>nextParamEndIndex\<close> on.
\<close>

function parseParams :: "string \<Rightarrow> nat \<Rightarrow> param list" where
  "parseParams path nextParamEndIndex =
     (case indexOf path CHR '':'' nextParamEndIndex of
        None \<Rightarrow> []
      | Some nextParamStartIndex \<Rightarrow>
          if 0 < nextParamStartIndex then
            (let e = endIndexFrom path nextParamStartIndex in
               \<lparr>name = slice path (nextParamStartIndex + 1) e,
                startIndex = nextParamStartIndex,
                endIndex = e\<rparr> # parseParams path e)
          else [])"
  by pat_completeness auto

lemma firstIndex_Some: "firstIndex c xs = Some k \<Longrightarrow> k < length xs \<and> xs ! k = c"
  by (induction xs arbitrary: k) (auto split: if_splits)

lemma indexOf_Some:
  "indexOf s c f = Some k \<Longrightarrow> f \<le> k \<and> k < length s \<and> s ! k = c"
  by (auto simp: indexOf_def dest!: firstIndex_Some)

lemma endIndexFrom_le: "endIndexFrom path s \<le> length path"
  by (auto simp: endIndexFrom_def split: option.splits dest!: indexOf_Some)

lemma endIndexFrom_ge: "s \<le> length path \<Longrightarrow> s \<le> endIndexFrom path s"
  by (auto simp: endIndexFrom_def split: option.splits dest!: indexOf_Some)

lemma endIndexFrom_beyond: "length path \<le> s \<Longrightarrow> endIndexFrom path s = length path"
  by (simp add: endIndexFrom_def indexOf_def)

lemma endIndexFrom_gt:
  assumes "s < length path" and "path ! s = CHR '':''"
  shows "s < endIndexFrom path s"
proof -
  have "s \<noteq> endIndexFrom path s"
    using assms by (auto simp: endIndexFrom_def split: option.splits dest!: indexOf_Some)
  moreover have "s \<le> endIndexFrom path s"
    using assms(1) by (simp add: endIndexFrom_ge)
  ultimately show ?thesis by simp
qed

termination parseParams
proof (relation "measure (\<lambda>(path, cursor). length path - cursor)")
  show "wf (measure (\<lambda>(path, cursor). length path - cursor))" by simp
next
  fix path :: string and nextParamEndIndex s e :: nat
  assume found: "indexOf path CHR '':'' nextParamEndIndex = Some s"
    and "0 < s" and e: "e = endIndexFrom path s"
  from found have s: "nextParamEndIndex \<le> s" "s < length path" "path ! s = CHR '':''"
    by (auto dest!: indexOf_Some)
  then have "s < e" using e by (simp add: endIndexFrom_gt)
  with s show "((path, e), (path, nextParamEndIndex)) \<in> measure (\<lambda>(path, cursor). length path - cursor)"
    by simp
qed

text \<open>
  \<open>new Params(path)\<close> runs the parser from cursor 0; the object is never changed
  afterwards. \<open>getAtPathIndex\<close> is \<open>Array.prototype.find\<close> on \<open>startIndex\<close>, and
  \<open>hasAtPathIndex\<close> its truthiness.
\<close>

definition Params :: "string \<Rightarrow> param list" where
  "Params path = parseParams path 0"

definition getAtPathIndex :: "param list \<Rightarrow> nat \<Rightarrow> param option" where
  "getAtPathIndex foundParams index = find (\<lambda>p. startIndex p = index) foundParams"

definition hasAtPathIndex :: "param list \<Rightarrow> nat \<Rightarrow> bool" where
  "hasAtPathIndex foundParams index = (getAtPathIndex foundParams index \<noteq> None)"

section \<open>Node, Leaf and Tree\<close>

text \<open>
  \<open>class Leaf extends Node\<close> adds the field \<open>handler\<close>: an object is a Leaf exactly when
  it was made by \<open>new Leaf\<close>, and then it holds a handler. The field \<open>leaf\<close> is that
  handler, \<open>None\<close> for a plain Node, so \<open>node instanceof Leaf\<close> is \<open>leaf node \<noteq> None\<close>.
  \<open>childTree\<close> is the object literal of the children, in insertion order. Every node is
  reachable from its parent only, so the mutable object graph is a tree. The private
  field \<open>#pathFragment\<close>, written by the constructor and never read, is \<open>fragment\<close>.
\<close>

datatype node =
  Node (fragment: string) (childTree: "(string \<times> node) list")
       (param: "param option") (leaf: "fn option")

type_synonym tree = "(string \<times> node) list"

definition new_Node :: "string \<Rightarrow> node" where
  "new_Node pathFragment = Node pathFragment [] None None"

definition new_Leaf :: "string \<Rightarrow> fn \<Rightarrow> node" where
  "new_Leaf pathFragment handler = Node pathFragment [] None (Some handler)"

fun set_param :: "node \<Rightarrow> param \<Rightarrow> node" where
  "set_param (Node f c _ l) p = Node f c (Some p) l"

fun set_childTree :: "node \<Rightarrow> (string \<times> node) list \<Rightarrow> node" where
  "set_childTree (Node f _ p l) c = Node f c p l"

declare parseParams.simps [simp del]

lemma parseParams_span:
  "p \<in> set (parseParams path cursor) \<Longrightarrow> startIndex p < endIndex p \<and> endIndex p \<le> length path"
proof (induction path cursor rule: parseParams.induct)
  case (1 path cursor)
  show ?case
  proof (cases "indexOf path CHR '':'' cursor")
    case None
    with "1.prems" show ?thesis by (simp add: parseParams.simps [of path cursor])
  next
    case (Some s)
    show ?thesis
    proof (cases "0 < s")
      case False
      with Some "1.prems" show ?thesis by (simp add: parseParams.simps [of path cursor])
    next
      case True
      from Some have s: "s < length path" "path ! s = CHR '':''"
        by (auto dest!: indexOf_Some)
      from "1.prems" Some True
      consider "p = \<lparr>name = slice path (s + 1) (endIndexFrom path s), startIndex = s,
                      endIndex = endIndexFrom path s\<rparr>"
        | "p \<in> set (parseParams path (endIndexFrom path s))"
        by (auto simp: Let_def parseParams.simps [of path cursor])
      then show ?thesis
      proof cases
        case 1
        with s show ?thesis by (simp add: endIndexFrom_gt endIndexFrom_le)
      next
        case 2
        with "1.IH" [OF Some True refl] show ?thesis by simp
      qed
    qed
  qed
qed

lemma getAtPathIndex_Some:
  "getAtPathIndex (Params path) i = Some p \<Longrightarrow> i < endIndex p \<and> endIndex p \<le> length path"
  using parseParams_span [of p path 0]
  by (auto simp: getAtPathIndex_def Params_def find_Some_iff)

text \<open>
  \<open>Tree.#buildTree\<close>, from its second iteration on. \<open>node\<close> is the node of the previous
  iteration, whose \<open>childTree\<close> is the variable \<open>tree\<close>; the result is that node after
  the iterations \<open>i, i + 1, ...\<close> have run. \<open>path0\<close> is the path as the method received
  it: \<open>params\<close> is computed from it once, before the loop, and never changes, so the loop
  reads \<open>Params path0\<close>. A child that is found is kept as it is (neither its class nor
  its handler changes); a child that is missing is created, as a Leaf when \<open>i\<close> is the
  length of the collapsed path. The test \<open>params.hasAtPathIndex(i)\<close> and the read
  \<open>params.getAtPathIndex(i)\<close> that follows it are the one case distinction on
  \<open>getAtPathIndex\<close>.
\<close>

function buildNode :: "string \<Rightarrow> fn \<Rightarrow> node \<Rightarrow> nat \<Rightarrow> string \<Rightarrow> node" where
  "buildNode path0 handler node i path =
     (if i \<le> length path then
        (let (node1, path1) =
               (case getAtPathIndex (Params path0) i of
                  Some p \<Rightarrow>
                    (set_param node p, slice path 0 i @ slice path (endIndex p) (length path))
                | None \<Rightarrow> (node, path));
             pathFragment = slice path1 0 i;
             child =
               (case map_of (childTree node1) pathFragment of
                  Some n \<Rightarrow> n
                | None \<Rightarrow>
                    if i = length path1 then new_Leaf pathFragment handler
                    else new_Node pathFragment)
         in set_childTree node1
              (AList.update pathFragment (buildNode path0 handler child (i + 1) path1)
                 (childTree node1)))
      else node)"
  by pat_completeness auto
termination
proof (relation "measure (\<lambda>(path0, handler, node, i, path). length path + 1 - i)")
  show "wf (measure (\<lambda>(path0, handler, node, i, path). length path + 1 - i))" by simp
next
  fix path0 :: string and handler :: fn and node :: node and i :: nat
    and path :: string and x and node1 :: node and path1 :: string
    and pathFragment :: string and child :: node
  assume i: "i \<le> length path"
    and x: "x = (case getAtPathIndex (Params path0) i of
                   None \<Rightarrow> (node, path)
                 | Some p \<Rightarrow>
                     (set_param node p, slice path 0 i @ slice path (endIndex p) (length path)))"
    and x1: "(node1, path1) = x"
  have "length path1 \<le> length path"
  proof (cases "getAtPathIndex (Params path0) i")
    case None
    with x x1 show ?thesis by simp
  next
    case (Some p)
    then have "i < endIndex p" by (auto dest: getAtPathIndex_Some)
    with Some x x1 i show ?thesis by (auto simp: slice_def)
  qed
  with i show "((path0, handler, child, i + 1, path1), (path0, handler, node, i, path))
      \<in> measure (\<lambda>(path0, handler, node, i, path). length path + 1 - i)"
    by simp
qed

declare buildNode.simps [simp del]

text \<open>
  \<open>Tree.build\<close>: the first iteration of \<open>#buildTree\<close>, where \<open>tree\<close> is the root object
  \<open>#nodeByPathFragment\<close> and the variable \<open>node\<close> is still undefined, followed by the
  remaining iterations. When a parameter starts at index 1 the assignment
  \<open>node.param = param\<close> sets a property of \<open>undefined\<close> and throws a TypeError before
  anything was written. A Tree object has the one field \<open>#nodeByPathFragment\<close>, so the
  model takes the Tree to be that object.
\<close>

definition Tree_build :: "tree \<Rightarrow> string \<Rightarrow> fn \<Rightarrow> error + tree" where
  "Tree_build tree path handler =
     (if 1 \<le> length path then
        (case getAtPathIndex (Params path) 1 of
           Some p \<Rightarrow> Inl TypeError
         | None \<Rightarrow>
             (let pathFragment = slice path 0 1;
                  node =
                    (case map_of tree pathFragment of
                       Some n \<Rightarrow> n
                     | None \<Rightarrow>
                         if 1 = length path then new_Leaf pathFragment handler
                         else new_Node pathFragment)
              in Inr (AList.update pathFragment (buildNode path handler node 2 path) tree)))
      else Inr tree)"

text \<open>
  \<open>Tree.#traverseForHandler\<close>: the loop, with the variables \<open>nodeByPathFragment\<close>,
  \<open>node\<close>, \<open>parsedParams\<close>, \<open>i\<close> and \<open>path\<close>; it returns \<open>node\<close> and \<open>parsedParams\<close>
  as they are when the loop is left. A fragment that is not found assigns \<open>undefined\<close>
  to \<open>node\<close> and breaks. (A fragment that is no own property but an inherited name
  yields a member of \<open>Object.prototype\<close>, whose \<open>childTree\<close> is undefined: the loop
  breaks as well, and that member is no Leaf, so the outcome is the same.) The
  \<open>childTree\<close> of a node is always an object, and every node is an instance of Node.
\<close>

function traverseLoop ::
  "tree \<Rightarrow> node option \<Rightarrow> parsedParams \<Rightarrow> nat \<Rightarrow> string \<Rightarrow> node option \<times> parsedParams" where
  "traverseLoop nodeByPathFragment node parsedParams i path =
     (if i \<le> length path then
        (let pathFragment = slice path 0 i in
         case map_of nodeByPathFragment pathFragment of
           None \<Rightarrow> (None, parsedParams)
         | Some n \<Rightarrow>
             (case param n of
                Some p \<Rightarrow>
                  (let nextPosition = i + 1;
                       paramValueEndIndex = endIndexFrom path nextPosition;
                       paramValue = slice path nextPosition paramValueEndIndex
                   in traverseLoop (childTree n) (Some n)
                        (setParsedParam parsedParams (name p) paramValue) (i + 1)
                        (slice path 0 (i + 1) @ slice path paramValueEndIndex (length path)))
              | None \<Rightarrow> traverseLoop (childTree n) (Some n) parsedParams (i + 1) path))
      else (node, parsedParams))"
  by pat_completeness auto
termination
proof (relation "measure (\<lambda>(t, node, parsedParams, i, path). length path + 1 - i)")
  show "wf (measure (\<lambda>(t, node, parsedParams, i, path). length path + 1 - i))" by simp
next
  fix nodeByPathFragment :: tree and node :: "node option"
    and parsedParams :: parsedParams and i :: nat and path pathFragment :: string
    and n :: node and p :: param and nextPosition paramValueEndIndex :: nat
    and paramValue :: string
  assume i: "i \<le> length path" and np: "nextPosition = i + 1"
    and e: "paramValueEndIndex = endIndexFrom path nextPosition"
  have "length (slice path 0 (i + 1) @ slice path paramValueEndIndex (length path)) \<le> length path"
  proof (cases "i + 1 \<le> length path")
    case True
    then have "i + 1 \<le> paramValueEndIndex" using e np by (simp add: endIndexFrom_ge)
    then show ?thesis by (auto simp: slice_def)
  next
    case False
    then have "paramValueEndIndex = length path" using e np by (simp add: endIndexFrom_beyond)
    with False i show ?thesis by (auto simp: slice_def)
  qed
  with i show "((childTree n, Some n, setParsedParam parsedParams (name p) paramValue, i + 1,
        slice path 0 (i + 1) @ slice path paramValueEndIndex (length path)),
       (nodeByPathFragment, node, parsedParams, i, path))
      \<in> measure (\<lambda>(t, node, parsedParams, i, path). length path + 1 - i)"
    by simp
next
  fix nodeByPathFragment :: tree and node :: "node option"
    and parsedParams :: parsedParams and i :: nat and path :: string and n :: node
  assume "i \<le> length path"
  then show "((childTree n, Some n, parsedParams, i + 1, path),
       (nodeByPathFragment, node, parsedParams, i, path))
      \<in> measure (\<lambda>(t, node, parsedParams, i, path). length path + 1 - i)"
    by simp
qed

declare traverseLoop.simps [simp del]

text \<open>
  \<open>Tree.traverse\<close>: after the loop, \<open>node instanceof Leaf\<close> decides between the pair
  of handler and parameters and \<open>undefined\<close>.
\<close>

definition Tree_traverse :: "tree \<Rightarrow> string \<Rightarrow> (fn \<times> parsedParams) option" where
  "Tree_traverse tree path =
     (case traverseLoop tree None [] 1 path of
        (Some n, parsedParams) \<Rightarrow>
          (case leaf n of Some handler \<Rightarrow> Some (handler, parsedParams) | None \<Rightarrow> None)
      | (None, parsedParams) \<Rightarrow> None)"

section \<open>RadixRouter\<close>

record router =
  treeByMethod :: "(string \<times> tree) list"
  notFondHandler :: fn

definition RadixRouter :: "fn option \<Rightarrow> router" where
  "RadixRouter notFoundCb =
     \<lparr>treeByMethod = [],
      notFondHandler = (case notFoundCb of Some cb \<Rightarrow> cb | None \<Rightarrow> noopFn)\<rparr>"

definition clearPath :: "string \<Rightarrow> string" where
  "clearPath path =
     (if length path > 1 \<and> endsWith path CHR ''/'' then slice path 0 (length path - 1)
      else path)"

text \<open>
  \<open>RadixRouter.#traverseForHandler\<close>: \<open>this.#treeByMethod[method]\<close> is a Tree, or
  undefined, or an inherited member of \<open>Object.prototype\<close>. The last is truthy and has
  no method \<open>traverse\<close>, so the call \<open>tree.traverse(path)\<close> throws a TypeError.
\<close>

definition traverseForHandler ::
  "router \<Rightarrow> string \<Rightarrow> string \<Rightarrow> error + (fn \<times> parsedParams) option" where
  "traverseForHandler r m path =
     (case getProperty (treeByMethod r) m of
        Own tree \<Rightarrow> Inr (Tree_traverse tree path)
      | Inherited \<Rightarrow> Inl TypeError
      | Missing \<Rightarrow> Inr None)"

text \<open>
  What a lookup does is one call \<open>handler(traversedResult?.parsedParams)\<close>: the model
  returns that call, the function called and its argument (\<open>None\<close> for undefined).
  What the called function does then is outside the router.
\<close>

datatype call = Call (callee: fn) (argument: "parsedParams option")

definition lookup :: "router \<Rightarrow> string \<Rightarrow> string \<Rightarrow> error + call" where
  "lookup r m path =
     (let clearedPath = clearPath path in
      case traverseForHandler r m clearedPath of
        Inl e \<Rightarrow> Inl e
      | Inr traversedResult \<Rightarrow>
          (case traversedResult of
             Some (handler, parsedParams) \<Rightarrow> Inr (Call handler (Some parsedParams))
           | None \<Rightarrow> Inr (Call (notFondHandler r) None)))"

text \<open>
  The two validators throw an AssertionError with the message of the first assertion that
  fails; when they pass, the argument is a string, respectively a function, which \<open>Inr\<close>
  hands on.
\<close>

definition validatePath :: "jsval \<Rightarrow> error + string" where
  "validatePath path =
     (case path of
        Str s \<Rightarrow>
          if \<not> startsWith s CHR ''/'' then Inl (AssertionError ''path must start with /'')
          else if length s > 1 \<and> endsWith s CHR ''/'' then
            Inl (AssertionError ''path can't end with /'')
          else if endsWith s CHR '':'' then Inl (AssertionError ''path can't end with :'')
          else Inr s
      | _ \<Rightarrow> Inl (AssertionError ''path must be a string''))"

definition validateHandler :: "jsval \<Rightarrow> error + fn" where
  "validateHandler handler =
     (case handler of
        Fun f \<Rightarrow> Inr f
      | _ \<Rightarrow> Inl (AssertionError ''handler must be a function''))"

text \<open>
  \<open>RadixRouter.#buildTree\<close> and \<open>#register\<close> return the error thrown, if any, and the
  router as the call leaves it. For a method without a tree, the new Tree is stored
  before \<open>tree.build\<close> runs. For an inherited name \<open>tree\<close> is truthy and has no method
  \<open>build\<close>: the call throws a TypeError.
\<close>

definition buildTree ::
  "router \<Rightarrow> string \<Rightarrow> string \<Rightarrow> fn \<Rightarrow> error option \<times> router" where
  "buildTree r m path handler =
     (case getProperty (treeByMethod r) m of
        Own tree \<Rightarrow>
          (case Tree_build tree path handler of
             Inl e \<Rightarrow> (Some e, r)
           | Inr tree' \<Rightarrow> (None, r\<lparr>treeByMethod := AList.update m tree' (treeByMethod r)\<rparr>))
      | Inherited \<Rightarrow> (Some TypeError, r)
      | Missing \<Rightarrow>
          (case Tree_build [] path handler of
             Inl e \<Rightarrow> (Some e, r\<lparr>treeByMethod := AList.update m [] (treeByMethod r)\<rparr>)
           | Inr tree' \<Rightarrow> (None, r\<lparr>treeByMethod := AList.update m tree' (treeByMethod r)\<rparr>)))"

definition register ::
  "router \<Rightarrow> string \<Rightarrow> jsval \<Rightarrow> jsval \<Rightarrow> error option \<times> router" where
  "register r m path handler =
     (case validatePath path of
        Inl e \<Rightarrow> (Some e, r)
      | Inr p \<Rightarrow>
          (case validateHandler handler of
             Inl e \<Rightarrow> (Some e, r)
           | Inr f \<Rightarrow> buildTree r m p f))"

definition get :: "router \<Rightarrow> jsval \<Rightarrow> jsval \<Rightarrow> error option \<times> router" where
  "get r path handler = register r ''GET'' path handler"

section \<open>Sequences of registrations, and the notions the proofs use\<close>

text \<open>
  A caller registers routes one after the other; a registration that throws leaves the
  router as the throwing call left it, and the caller goes on.
\<close>

fun registerAll :: "router \<Rightarrow> (string \<times> string \<times> fn) list \<Rightarrow> router" where
  "registerAll r [] = r"
| "registerAll r ((m, p, h) # regs) = registerAll (snd (register r m (Str p) (Fun h))) regs"

text \<open>
  The tree of a method, the empty one when the method has none (a lookup cannot tell the
  two apart).
\<close>

definition trieOf :: "router \<Rightarrow> string \<Rightarrow> tree" where
  "trieOf r m = (case map_of (treeByMethod r) m of Some t \<Rightarrow> t | None \<Rightarrow> [])"

text \<open>
  A tree none of whose nodes carries a parameter: what registrations of paths without
  dynamic segments build.
\<close>

fun noParams :: "node \<Rightarrow> bool" where
  "noParams (Node f c p l) = (p = None \<and> (\<forall>(k, n) \<in> set c. noParams n))"

definition noParamsT :: "tree \<Rightarrow> bool" where
  "noParamsT t = (\<forall>(k, n) \<in> set t. noParams n)"

definition noParamsR :: "router \<Rightarrow> bool" where
  "noParamsR r = (\<forall>(m, t) \<in> set (treeByMethod r). noParamsT t)"

text \<open>
  What the traversal loop ends on, seen from outside: \<open>None\<close> when \<open>node\<close> is undefined,
  \<open>Some None\<close> for a plain Node, \<open>Some (Some h)\<close> for a Leaf with handler \<open>h\<close>.
\<close>

definition reached :: "tree \<Rightarrow> node option \<Rightarrow> nat \<Rightarrow> string \<Rightarrow> fn option option" where
  "reached t prev i q = map_option leaf (fst (traverseLoop t prev [] i q))"

definition status :: "tree \<Rightarrow> string \<Rightarrow> fn option option" where
  "status t q = reached t None 1 q"

section \<open>Paths without parameters: what a build adds and what a traversal finds\<close>

lemma firstIndex_None: "c \<notin> set xs \<Longrightarrow> firstIndex c xs = None"
  by (induction xs) auto

lemma indexOf_None: "c \<notin> set s \<Longrightarrow> indexOf s c f = None"
proof -
  assume "c \<notin> set s"
  then have "c \<notin> set (drop f s)" by (auto dest: in_set_dropD)
  then show ?thesis by (simp add: indexOf_def firstIndex_None)
qed

lemma Params_no_colon: "CHR '':'' \<notin> set path \<Longrightarrow> Params path = []"
  by (simp add: Params_def parseParams.simps [of path 0] indexOf_None)

lemma getAtPathIndex_Nil: "getAtPathIndex [] i = None"
  by (simp add: getAtPathIndex_def)

lemma slice_0: "slice s 0 i = take i s"
  by (simp add: slice_def)

lemma childTree_set_childTree [simp]: "childTree (set_childTree n c) = c"
  by (cases n) simp

lemma leaf_set_childTree [simp]: "leaf (set_childTree n c) = leaf n"
  by (cases n) simp

lemma param_set_childTree [simp]: "param (set_childTree n c) = param n"
  by (cases n) simp

lemma leaf_set_param [simp]: "leaf (set_param n p) = leaf n"
  by (cases n) simp

lemma childTree_set_param [simp]: "childTree (set_param n p) = childTree n"
  by (cases n) simp

lemma param_set_param [simp]: "param (set_param n p) = Some p"
  by (cases n) simp

lemma leaf_buildNode: "leaf (buildNode p0 h node i path) = leaf node"
  by (subst buildNode.simps) (simp add: Let_def split: option.splits prod.splits)

lemma buildNode_static:
  "Params p = [] \<Longrightarrow> buildNode p h node i p =
     (if i \<le> length p then
        set_childTree node
          (AList.update (take i p)
             (buildNode p h
                (case map_of (childTree node) (take i p) of
                   Some n \<Rightarrow> n
                 | None \<Rightarrow> if i = length p then new_Leaf (take i p) h else new_Node (take i p))
                (i + 1) p)
             (childTree node))
      else node)"
  by (subst buildNode.simps) (simp add: getAtPathIndex_Nil slice_0 Let_def)

lemma noParams_iff: "noParams n \<longleftrightarrow> param n = None \<and> noParamsT (childTree n)"
  by (cases n) (simp add: noParamsT_def)

lemma noParamsT_map_of: "noParamsT t \<Longrightarrow> map_of t k = Some n \<Longrightarrow> noParams n"
  by (auto simp: noParamsT_def dest!: map_of_SomeD)

lemma set_alist_update: "set (AList.update k v al) \<subseteq> insert (k, v) (set al)"
  by (induction al) auto

lemma noParamsT_update: "noParamsT t \<Longrightarrow> noParams n \<Longrightarrow> noParamsT (AList.update k n t)"
  using set_alist_update [of k n t] by (auto simp: noParamsT_def)

lemma new_Leaf_sel [simp]:
  "param (new_Leaf f h) = None" "childTree (new_Leaf f h) = []" "leaf (new_Leaf f h) = Some h"
  by (simp_all add: new_Leaf_def)

lemma new_Node_sel [simp]:
  "param (new_Node f) = None" "childTree (new_Node f) = []" "leaf (new_Node f) = None"
  by (simp_all add: new_Node_def)

lemma noParamsT_Nil [simp]: "noParamsT []"
  by (simp add: noParamsT_def)

lemma noParams_buildNode:
  "Params p = [] \<Longrightarrow> noParams node \<Longrightarrow> noParams (buildNode p h node i p)"
proof (induction "Suc (length p) - i" arbitrary: i node)
  case 0
  then show ?case by (simp add: buildNode_static)
next
  case (Suc k)
  show ?case
  proof (cases "i \<le> length p")
    case False
    with Suc.prems show ?thesis by (simp add: buildNode_static)
  next
    case True
    let ?c = "case map_of (childTree node) (take i p) of
                Some n \<Rightarrow> n
              | None \<Rightarrow> if i = length p then new_Leaf (take i p) h else new_Node (take i p)"
    have c: "noParams ?c"
      using Suc.prems(2) by (auto simp: noParams_iff split: option.splits dest: noParamsT_map_of)
    have "k = Suc (length p) - (i + 1)" using Suc.hyps(2) by simp
    from Suc.hyps(1) [OF this Suc.prems(1) c]
    have "noParams (buildNode p h ?c (i + 1) p)" .
    with Suc.prems True show ?thesis
      by (subst buildNode_static) (auto simp: noParams_iff noParamsT_update)
  qed
qed

lemma traverseLoop_prev:
  "i \<le> length q \<Longrightarrow> traverseLoop t prev ps i q = traverseLoop t prev' ps i q"
  by (simp add: traverseLoop.simps [of t prev ps i q] traverseLoop.simps [of t prev' ps i q])

lemma traverseLoop_static:
  "noParamsT t \<Longrightarrow> traverseLoop t prev ps i q =
     (if i \<le> length q then
        (case map_of t (take i q) of
           None \<Rightarrow> (None, ps)
         | Some n \<Rightarrow> traverseLoop (childTree n) (Some n) ps (i + 1) q)
      else (prev, ps))"
  by (subst traverseLoop.simps)
    (auto simp: slice_0 Let_def noParams_iff split: option.splits dest: noParamsT_map_of)

lemma reached_static:
  "noParamsT t \<Longrightarrow> reached t prev i q =
     (if i \<le> length q then
        (case map_of t (take i q) of
           None \<Rightarrow> None
         | Some n \<Rightarrow> reached (childTree n) (Some n) (i + 1) q)
      else map_option leaf prev)"
  unfolding reached_def by (subst traverseLoop_static) (auto split: option.splits)

lemma reached_prev: "i \<le> length q \<Longrightarrow> reached t prev i q = reached t prev' i q"
  unfolding reached_def using traverseLoop_prev [of i q t prev "[]" prev'] by simp

lemma snd_traverseLoop_static: "noParamsT t \<Longrightarrow> snd (traverseLoop t prev ps i q) = ps"
proof (induction "Suc (length q) - i" arbitrary: i t prev)
  case 0
  then show ?case by (subst traverseLoop_static) auto
next
  case (Suc k)
  show ?case
  proof (cases "map_of t (take i q)")
    case None
    with Suc.prems show ?thesis by (subst traverseLoop_static) auto
  next
    case (Some n)
    with Suc.prems have n: "noParamsT (childTree n)"
      by (auto simp: noParams_iff dest: noParamsT_map_of)
    have "k = Suc (length q) - (i + 1)" using Suc.hyps(2) by simp
    from Suc.hyps(1) [OF this n] Some Suc.prems show ?thesis
      by (subst traverseLoop_static) auto
  qed
qed

lemma prefix_take_eq: "prefix q p \<Longrightarrow> i \<le> length q \<Longrightarrow> take i q = take i p"
  by (auto simp: prefix_def)

lemma take_eq_prefix: "take (length q) q = take (length q) p \<Longrightarrow> prefix q p"
  by (metis take_all_iff order_refl take_is_prefix)

lemma prefix_eq_length: "prefix q p \<Longrightarrow> q = p \<longleftrightarrow> length q = length p"
  by (auto simp: prefix_def)

lemma reached_Nil: "i \<le> length q \<Longrightarrow> reached [] prev i q = None"
  by (simp add: reached_static)

lemma reached_buildNode:
  assumes st: "Params p = []"
  shows "noParamsT (childTree node) \<Longrightarrow>
     reached (childTree (buildNode p h node i p)) prev i q =
       (if i \<le> length q \<and> prefix q p \<and> reached (childTree node) prev i q = None
        then Some (if q = p then Some h else None)
        else reached (childTree node) prev i q)"
proof (induction "Suc (length p) - i" arbitrary: i node prev)
  case 0
  then have "\<not> i \<le> length p" by simp
  then show ?case using st by (auto simp: buildNode_static dest: prefix_length_le)
next
  case (Suc k)
  have ile: "i \<le> length p" using Suc.hyps(2) by simp
  define c where "c = (case map_of (childTree node) (take i p) of
              Some n \<Rightarrow> n
            | None \<Rightarrow> if i = length p then new_Leaf (take i p) h else new_Node (take i p))"
  define c' where "c' = buildNode p h c (i + 1) p"
  define t' where "t' = AList.update (take i p) c' (childTree node)"
  define old where "old = reached (childTree node) prev i q"
  have new: "childTree (buildNode p h node i p) = t'"
    using ile st by (subst buildNode_static) (simp_all add: t'_def c'_def c_def)
  have cnp: "noParams c"
    using Suc.prems
    by (auto split: option.splits dest: noParamsT_map_of simp: noParams_iff c_def)
  then have cT: "noParamsT (childTree c)" by (simp add: noParams_iff)
  have c'np: "noParams c'" unfolding c'_def using st cnp by (rule noParams_buildNode)
  then have c'T: "noParamsT (childTree c')" by (simp add: noParams_iff)
  have t'np: "noParamsT t'" unfolding t'_def using Suc.prems c'np by (simp add: noParamsT_update)
  have leaf: "leaf c' = leaf c" unfolding c'_def by (rule leaf_buildNode)
  have k: "k = Suc (length p) - (i + 1)" using Suc.hyps(2) by simp
  have IH: "reached (childTree c') prev' (i + 1) q =
       (if i + 1 \<le> length q \<and> prefix q p \<and> reached (childTree c) prev' (i + 1) q = None
        then Some (if q = p then Some h else None)
        else reached (childTree c) prev' (i + 1) q)" for prev'
    unfolding c'_def using Suc.hyps(1) [OF k cT] .
  have goal: "reached t' prev i q =
       (if i \<le> length q \<and> prefix q p \<and> old = None
        then Some (if q = p then Some h else None) else old)"
  proof (cases "i \<le> length q")
    case False
    then show ?thesis using Suc.prems t'np by (simp add: reached_static old_def)
  next
    case iq: True
    show ?thesis
    proof (cases "take i q = take i p")
      case False
      then have np: "\<not> prefix q p" using iq by (auto dest: prefix_take_eq)
      have "map_of t' (take i q) = map_of (childTree node) (take i q)"
        using False by (simp add: t'_def update_conv')
      then have "reached t' prev i q = old"
        using iq Suc.prems t'np
        by (simp add: reached_static [of t'] reached_static [of "childTree node"] old_def)
      with np show ?thesis by simp
    next
      case eq: True
      have "map_of t' (take i q) = Some c'" using eq by (simp add: t'_def update_conv')
      then have step': "reached t' prev i q = reached (childTree c') (Some c') (i + 1) q"
        using iq t'np by (simp add: reached_static [of t'])
      show ?thesis
      proof (cases "map_of (childTree node) (take i p)")
        case None
        then have old: "old = None"
          using eq iq Suc.prems by (simp add: reached_static [of "childTree node"] old_def)
        have c0: "childTree c = []" "leaf c = (if i = length p then Some h else None)"
          using None by (auto simp: c_def)
        show ?thesis
        proof (cases "i = length q")
          case True
          then have pre: "prefix q p" using eq by (auto intro: take_eq_prefix)
          have "reached (childTree c') (Some c') (i + 1) q = Some (leaf c')"
            using True c'T by (simp add: reached_static)
          then have "reached t' prev i q = Some (if i = length p then Some h else None)"
            using step' c0 leaf by simp
          with pre old iq True show ?thesis by (simp add: prefix_eq_length)
        next
          case False
          with iq have i1: "i + 1 \<le> length q" by simp
          have "reached (childTree c) (Some c') (i + 1) q = None"
            using c0(1) i1 by (simp add: reached_Nil)
          with IH [of "Some c'"] i1 step' old iq show ?thesis by simp
        qed
      next
        case (Some n)
        then have c: "c = n" by (simp add: c_def)
        have old: "old = reached (childTree c) (Some c) (i + 1) q"
          using Some c eq iq Suc.prems by (simp add: reached_static [of "childTree node"] old_def)
        show ?thesis
        proof (cases "i = length q")
          case True
          have a: "reached (childTree c) (Some c') (i + 1) q = Some (leaf c)"
            using True cT leaf by (simp add: reached_static)
          have b: "reached (childTree c) (Some c) (i + 1) q = Some (leaf c)"
            using True cT by (simp add: reached_static)
          from IH [of "Some c'"] a b step' old True show ?thesis by simp
        next
          case False
          with iq have i1: "i + 1 \<le> length q" by simp
          have "reached (childTree c) (Some c') (i + 1) q = reached (childTree c) (Some c) (i + 1) q"
            using i1 by (rule reached_prev)
          with IH [of "Some c'"] i1 step' old iq show ?thesis by simp
        qed
      qed
    qed
  qed
  then show ?case unfolding new old_def .
qed

lemma Tree_build_static:
  assumes "Params p = []" and "p \<noteq> []"
  shows "Tree_build t p h = Inr (childTree (buildNode p h (Node [] t None None) 1 p))"
proof -
  have "1 \<le> length p" using assms(2) by (cases p) auto
  then show ?thesis
    using assms(1)
    by (subst buildNode_static)
      (simp_all add: Tree_build_def getAtPathIndex_Nil slice_0 Let_def numeral_2_eq_2
        split: option.split)
qed

lemma status_Tree_build:
  assumes "Params p = []" and "p \<noteq> []" and "noParamsT t"
  shows "\<exists>t'. Tree_build t p h = Inr t' \<and> noParamsT t' \<and>
     (\<forall>q. status t' q =
        (if q \<noteq> [] \<and> prefix q p \<and> status t q = None
         then Some (if q = p then Some h else None) else status t q))"
proof -
  let ?root = "Node [] t None None"
  let ?t' = "childTree (buildNode p h ?root 1 p)"
  have "noParams ?root" using assms(3) by (simp add: noParamsT_def)
  then have "noParams (buildNode p h ?root 1 p)"
    using assms(1) by (simp add: noParams_buildNode)
  then have np: "noParamsT ?t'" by (simp add: noParams_iff)
  have "status ?t' q =
        (if q \<noteq> [] \<and> prefix q p \<and> status t q = None
         then Some (if q = p then Some h else None) else status t q)" for q
  proof -
    have "1 \<le> length q \<longleftrightarrow> q \<noteq> []" by (cases q) auto
    then show ?thesis
      using reached_buildNode [OF assms(1), of ?root h 1 None q] assms(3)
      by (simp add: status_def)
  qed
  with np Tree_build_static [OF assms(1,2)] show ?thesis by simp
qed

lemma Tree_traverse_static:
  assumes "noParamsT t"
  shows "Tree_traverse t q = (case status t q of Some (Some h) \<Rightarrow> Some (h, []) | _ \<Rightarrow> None)"
proof -
  obtain n ps where tl: "traverseLoop t None [] 1 q = (n, ps)" by (cases "traverseLoop t None [] 1 q")
  then have "ps = []" using snd_traverseLoop_static [OF assms, of None "[]" 1 q] by simp
  with tl show ?thesis
    by (auto simp: Tree_traverse_def status_def reached_def split: option.splits)
qed

lemma status_Nil [simp]: "status [] q = None"
  unfolding status_def by (subst reached_static) auto

lemma getProperty_update_other:
  "m' \<noteq> m \<Longrightarrow> getProperty (AList.update m t al) m' = getProperty al m'"
  by (simp add: getProperty_def update_conv')

lemma getProperty_update_same: "getProperty (AList.update m t al) m = Own t"
  by (simp add: getProperty_def update_conv')

lemma register_frame:
  "snd (register r m path handler) = r \<or>
   (\<exists>t. snd (register r m path handler) = r\<lparr>treeByMethod := AList.update m t (treeByMethod r)\<rparr>)"
  by (auto simp: register_def buildTree_def split: sum.splits property.splits)

lemma lookup_frame:
  assumes "m' \<noteq> m"
  shows "lookup (r\<lparr>treeByMethod := AList.update m t (treeByMethod r)\<rparr>) m' q = lookup r m' q"
  using assms
  by (simp add: lookup_def traverseForHandler_def getProperty_update_other
      split: property.splits option.splits)

section \<open>Routers built by registrations of paths without parameters\<close>

lemma Tree_traverse_Nil: "Tree_traverse [] q = None"
  by (simp add: Tree_traverse_static)

lemma lookup_trieOf:
  assumes "m \<notin> set objectPrototypeKeys"
  shows "lookup r m q =
     Inr (case Tree_traverse (trieOf r m) (clearPath q) of
            Some (h, ps) \<Rightarrow> Call h (Some ps)
          | None \<Rightarrow> Call (notFondHandler r) None)"
  using assms
  by (auto simp: lookup_def traverseForHandler_def getProperty_def trieOf_def Tree_traverse_Nil
      split: option.splits)

lemma validatePath_Inr:
  "validatePath (Str p) = Inr p' \<Longrightarrow> p' = p \<and> p \<noteq> [] \<and> clearPath p = p"
  by (auto simp: validatePath_def clearPath_def startsWith_def split: if_splits list.splits)

lemma noParamsT_trieOf: "noParamsR r \<Longrightarrow> noParamsT (trieOf r m)"
  by (auto simp: noParamsR_def trieOf_def split: option.splits dest!: map_of_SomeD)

lemma noParamsR_update:
  "noParamsR r \<Longrightarrow> noParamsT t \<Longrightarrow>
   noParamsR (r\<lparr>treeByMethod := AList.update m t (treeByMethod r)\<rparr>)"
  using set_alist_update [of m t "treeByMethod r"] by (auto simp: noParamsR_def)

lemma trieOf_update:
  "trieOf (r\<lparr>treeByMethod := AList.update m t (treeByMethod r)\<rparr>) m' =
     (if m' = m then t else trieOf r m')"
  by (simp add: trieOf_def update_conv')

lemma buildTree_trieOf:
  assumes "m \<notin> set objectPrototypeKeys" and "Tree_build (trieOf r m) p h = Inr t'"
    and "Tree_build [] p h = Inr t0 \<Longrightarrow> True"
  shows "buildTree r m p h = (None, r\<lparr>treeByMethod := AList.update m t' (treeByMethod r)\<rparr>)"
  using assms(1,2)
  by (auto simp: buildTree_def getProperty_def trieOf_def split: option.splits)

lemma register_static:
  assumes "validatePath (Str p) = Inr p" and "Params p = []"
    and "m \<notin> set objectPrototypeKeys" and "noParamsR r"
  shows "\<exists>t'. register r m (Str p) (Fun h)
           = (None, r\<lparr>treeByMethod := AList.update m t' (treeByMethod r)\<rparr>) \<and>
         noParamsT t' \<and>
         (\<forall>q. status t' q =
            (if q \<noteq> [] \<and> prefix q p \<and> status (trieOf r m) q = None
             then Some (if q = p then Some h else None) else status (trieOf r m) q))"
proof -
  have ne: "p \<noteq> []" using assms(1) by (auto dest: validatePath_Inr)
  from status_Tree_build [OF assms(2) ne noParamsT_trieOf [OF assms(4)], of m h]
  obtain t' where t': "Tree_build (trieOf r m) p h = Inr t'" "noParamsT t'"
    "\<forall>q. status t' q =
        (if q \<noteq> [] \<and> prefix q p \<and> status (trieOf r m) q = None
         then Some (if q = p then Some h else None) else status (trieOf r m) q)"
    by blast
  have "register r m (Str p) (Fun h) = buildTree r m p h"
    using assms(1) by (simp add: register_def validateHandler_def)
  also have "\<dots> = (None, r\<lparr>treeByMethod := AList.update m t' (treeByMethod r)\<rparr>)"
    using assms(3) t'(1) by (rule buildTree_trieOf) simp
  finally show ?thesis using t'(2,3) by blast
qed

lemma registerAll_static:
  assumes "\<forall>(m', p, h) \<in> set regs.
      validatePath (Str p) = Inr p \<and> Params p = [] \<and> m' \<notin> set objectPrototypeKeys"
    and "noParamsR r"
  shows "noParamsR (registerAll r regs) \<and>
     notFondHandler (registerAll r regs) = notFondHandler r \<and>
     status (trieOf (registerAll r regs) m) q =
       (case status (trieOf r m) q of
          Some s \<Rightarrow> Some s
        | None \<Rightarrow>
            (case find (\<lambda>(m', p, h). m' = m \<and> prefix q p) regs of
               None \<Rightarrow> None
             | Some (m', p, h) \<Rightarrow>
                 if q = [] then None else Some (if q = p then Some h else None)))"
  using assms
proof (induction regs arbitrary: r)
  case Nil
  then show ?case by (simp split: option.splits)
next
  case (Cons reg regs)
  obtain m0 p0 h0 where reg: "reg = (m0, p0, h0)" by (cases reg)
  from Cons.prems(1) reg have
    ok: "validatePath (Str p0) = Inr p0" "Params p0 = []" "m0 \<notin> set objectPrototypeKeys"
    and rest: "\<forall>(m', p, h) \<in> set regs.
      validatePath (Str p) = Inr p \<and> Params p = [] \<and> m' \<notin> set objectPrototypeKeys"
    by auto
  from register_static [OF ok Cons.prems(2), of h0]
  obtain t' where t': "register r m0 (Str p0) (Fun h0)
           = (None, r\<lparr>treeByMethod := AList.update m0 t' (treeByMethod r)\<rparr>)"
    "noParamsT t'"
    "\<forall>q. status t' q =
        (if q \<noteq> [] \<and> prefix q p0 \<and> status (trieOf r m0) q = None
         then Some (if q = p0 then Some h0 else None) else status (trieOf r m0) q)"
    by blast
  define r1 where "r1 = r\<lparr>treeByMethod := AList.update m0 t' (treeByMethod r)\<rparr>"
  have np1: "noParamsR r1" unfolding r1_def using Cons.prems(2) t'(2) by (rule noParamsR_update)
  have nf1: "notFondHandler r1 = notFondHandler r" by (simp add: r1_def)
  have st1: "status (trieOf r1 m) q =
      (if m = m0 \<and> q \<noteq> [] \<and> prefix q p0 \<and> status (trieOf r m) q = None
       then Some (if q = p0 then Some h0 else None) else status (trieOf r m) q)"
    using t'(3) by (simp add: r1_def trieOf_update)
  have all: "registerAll r (reg # regs) = registerAll r1 regs"
    using t'(1) by (simp add: reg r1_def)
  from Cons.IH [OF rest np1] have IH:
    "noParamsR (registerAll r1 regs)"
    "notFondHandler (registerAll r1 regs) = notFondHandler r1"
    "status (trieOf (registerAll r1 regs) m) q =
       (case status (trieOf r1 m) q of
          Some s \<Rightarrow> Some s
        | None \<Rightarrow>
            (case find (\<lambda>(m', p, h). m' = m \<and> prefix q p) regs of
               None \<Rightarrow> None
             | Some (m', p, h) \<Rightarrow>
                 if q = [] then None else Some (if q = p then Some h else None)))"
    by simp_all
  show ?case
    unfolding all using IH(1) IH(2) nf1
    by (auto simp: IH(3) st1 reg split: option.splits)
qed

lemma find_SomeD: "find P xs = Some x \<Longrightarrow> P x \<and> x \<in> set xs"
  by (induction xs) (auto split: if_splits)


lemma noParamsR_RadixRouter [simp]: "noParamsR (RadixRouter nf)"
  by (simp add: noParamsR_def RadixRouter_def)

lemma trieOf_RadixRouter [simp]: "trieOf (RadixRouter nf) m = []"
  by (simp add: trieOf_def RadixRouter_def)

lemma clearPath_prefix: "prefix (clearPath p) p"
  by (simp add: clearPath_def slice_0 take_is_prefix)

lemma clearPath_Nil_iff: "clearPath p = [] \<longleftrightarrow> p = []"
  by (cases p) (auto simp: clearPath_def slice_0)

lemma clearPath_append_slash: "p \<noteq> [] \<Longrightarrow> clearPath (p @ ''/'') = p"
  by (simp add: clearPath_def endsWith_def slice_0)

lemma clearPath_id: "length p \<le> 1 \<or> last p \<noteq> CHR ''/'' \<Longrightarrow> clearPath p = p"
  by (auto simp: clearPath_def endsWith_def)

text \<open>
  Paths without parameters only: a lookup finds the first registration, for its method,
  of a path that the normalised lookup path is a prefix of; it matches when that path is
  the normalised lookup path itself.
\<close>

lemma lookup_registerAll_static:
  assumes regs: "\<forall>(m', p', h') \<in> set regs.
      validatePath (Str p') = Inr p' \<and> Params p' = [] \<and> m' \<notin> set objectPrototypeKeys"
    and m: "m \<notin> set objectPrototypeKeys"
  shows "lookup (registerAll (RadixRouter nf) regs) m p =
     Inr (case find (\<lambda>(m', p', h'). m' = m \<and> prefix (clearPath p) p') regs of
            None \<Rightarrow> Call (notFondHandler (RadixRouter nf)) None
          | Some (m', p', h') \<Rightarrow>
              if p \<noteq> [] \<and> p' = clearPath p then Call h' (Some [])
              else Call (notFondHandler (RadixRouter nf)) None)"
proof -
  let ?R = "registerAll (RadixRouter nf) regs"
  from registerAll_static [OF regs noParamsR_RadixRouter, of nf m "clearPath p"]
  have R: "noParamsR ?R" "notFondHandler ?R = notFondHandler (RadixRouter nf)"
    and st: "status (trieOf ?R m) (clearPath p) =
      (case find (\<lambda>(m', p', h'). m' = m \<and> prefix (clearPath p) p') regs of
         None \<Rightarrow> None
       | Some (m', p', h') \<Rightarrow>
           if clearPath p = [] then None else Some (if clearPath p = p' then Some h' else None))"
    by simp_all
  have "Tree_traverse (trieOf ?R m) (clearPath p) =
      (case status (trieOf ?R m) (clearPath p) of Some (Some h) \<Rightarrow> Some (h, []) | _ \<Rightarrow> None)"
    using R(1) by (simp add: Tree_traverse_static noParamsT_trieOf)
  then show ?thesis
    using R(2) m
    by (auto simp: lookup_trieOf st clearPath_Nil_iff split: option.splits)
qed

section \<open>Registering the same route again\<close>

lemma set_childTree_twice [simp]: "set_childTree (set_childTree n a) b = set_childTree n b"
  by (cases n) simp

lemma set_param_set_childTree:
  "set_param (set_childTree n c) p = set_childTree (set_param n p) c"
  by (cases n) simp

lemma set_param_twice [simp]: "set_param (set_param n p) p = set_param n p"
  by (cases n) simp

lemma buildNode_idem:
  "buildNode p0 h2 (buildNode p0 h1 node i path) i path = buildNode p0 h1 node i path"
proof (induction p0 h1 node i path rule: buildNode.induct)
  case (1 path0 handler node i path)
  show ?case
  proof (cases "i \<le> length path")
    case False
    then show ?thesis by (simp add: buildNode.simps [of _ _ _ i path])
  next
    case True
    define x where "x = (case getAtPathIndex (Params path0) i of
                  None \<Rightarrow> (node, path)
                | Some p \<Rightarrow>
                    (set_param node p, slice path 0 i @ slice path (endIndex p) (length path)))"
    obtain node1 path1 where np: "(node1, path1) = x" by (cases x) auto
    define frag where "frag = slice path1 0 i"
    define child where "child = (case map_of (childTree node1) frag of
                  None \<Rightarrow> if i = length path1 then new_Leaf frag handler else new_Node frag
                | Some n \<Rightarrow> n)"
    define c' where "c' = buildNode path0 handler child (i + 1) path1"
    define n1 where "n1 = set_childTree node1 (AList.update frag c' (childTree node1))"
    have IH: "buildNode path0 h2 c' (i + 1) path1 = c'"
      unfolding c'_def
      using "1.IH" [OF True x_def np frag_def child_def] .
    have b1: "buildNode path0 handler node i path = n1"
      using True np [symmetric]
      by (subst buildNode.simps)
        (simp add: x_def [symmetric] Let_def n1_def c'_def child_def frag_def split: option.split)
    have x2: "(case getAtPathIndex (Params path0) i of
                  None \<Rightarrow> (n1, path)
                | Some p \<Rightarrow>
                    (set_param n1 p, slice path 0 i @ slice path (endIndex p) (length path)))
              = (n1, path1)"
      using np [symmetric]
      by (auto simp: x_def n1_def set_param_set_childTree split: option.splits)
    have look: "map_of (childTree n1) frag = Some c'"
      by (simp add: n1_def update_conv')
    have "buildNode path0 h2 n1 i path =
        set_childTree n1 (AList.update frag (buildNode path0 h2 c' (i + 1) path1) (childTree n1))"
      using True
      by (subst buildNode.simps) (simp add: x2 Let_def frag_def [symmetric] look)
    also have "\<dots> = n1" using IH by (simp add: n1_def)
    finally show ?thesis by (simp add: b1)
  qed
qed

lemma Tree_build_idem:
  assumes "Tree_build t p h1 = Inr t1"
  shows "Tree_build t1 p h2 = Inr t1"
proof (cases "1 \<le> length p")
  case False
  with assms show ?thesis by (simp add: Tree_build_def)
next
  case True
  from assms True have g: "getAtPathIndex (Params p) 1 = None"
    by (auto simp: Tree_build_def split: option.splits)
  define frag where "frag = slice p 0 1"
  define node where "node = (case map_of t frag of
                       Some n \<Rightarrow> n
                     | None \<Rightarrow> if 1 = length p then new_Leaf frag h1 else new_Node frag)"
  define c' where "c' = buildNode p h1 node 2 p"
  have "Tree_build t p h1 = Inr (AList.update frag c' t)"
    unfolding Tree_build_def frag_def node_def c'_def Let_def using True g by simp
  with assms have t1: "t1 = AList.update frag c' t" by simp
  have look: "map_of t1 frag = Some c'" by (simp add: t1 update_conv')
  have "buildNode p h2 c' 2 p = c'" unfolding c'_def by (rule buildNode_idem)
  moreover have "Tree_build t1 p h2 =
      Inr (AList.update frag
        (buildNode p h2
          (case map_of t1 frag of
             Some n \<Rightarrow> n
           | None \<Rightarrow> if 1 = length p then new_Leaf frag h2 else new_Node frag) 2 p) t1)"
    unfolding Tree_build_def frag_def Let_def using True g by simp
  ultimately have "Tree_build t1 p h2 = Inr (AList.update frag c' t1)"
    by (simp add: look)
  then show ?thesis by (simp add: t1)
qed

lemma buildTree_idem:
  assumes "buildTree r m p f1 = (None, r1)"
  shows "buildTree r1 m p f2 = (None, r1)"
proof (cases "getProperty (treeByMethod r) m")
  case (Own t)
  with assms obtain t1 where t1: "Tree_build t p f1 = Inr t1"
    and r1: "r1 = r\<lparr>treeByMethod := AList.update m t1 (treeByMethod r)\<rparr>"
    by (auto simp: buildTree_def split: sum.splits)
  from Tree_build_idem [OF t1, of f2] show ?thesis
    by (simp add: buildTree_def r1 getProperty_update_same)
next
  case Inherited
  with assms show ?thesis by (simp add: buildTree_def)
next
  case Missing
  with assms obtain t1 where t1: "Tree_build [] p f1 = Inr t1"
    and r1: "r1 = r\<lparr>treeByMethod := AList.update m t1 (treeByMethod r)\<rparr>"
    by (auto simp: buildTree_def split: sum.splits)
  from Tree_build_idem [OF t1, of f2] show ?thesis
    by (simp add: buildTree_def r1 getProperty_update_same)
qed

lemma register_idem:
  assumes "register r m path handler1 = (None, r1)"
  shows "register r1 m path (Fun f2) = (None, r1)"
proof -
  from assms obtain p f1 where "validatePath path = Inr p" "buildTree r m p f1 = (None, r1)"
    by (auto simp: register_def split: sum.splits)
  then show ?thesis
    by (simp add: register_def validateHandler_def buildTree_idem)
qed

section \<open>Parameter capture\<close>

lemma firstIndex_least: "firstIndex c xs = Some k \<Longrightarrow> c \<notin> set (take k xs)"
  by (induction xs arbitrary: k) (auto split: if_splits)

lemma firstIndex_None_iff: "firstIndex c xs = None \<longleftrightarrow> c \<notin> set xs"
  by (induction xs) auto

text \<open>The captured value runs up to the end index and holds no \<open>/\<close>.\<close>

lemma value_has_no_slash: "CHR ''/'' \<notin> set (slice path s (endIndexFrom path s))"
proof (cases "indexOf path CHR ''/'' s")
  case None
  then have "CHR ''/'' \<notin> set (drop s path)"
    by (simp add: indexOf_def firstIndex_None_iff)
  then show ?thesis by (auto simp: slice_def dest: in_set_takeD)
next
  case (Some e)
  then obtain k where "firstIndex CHR ''/'' (drop s path) = Some k" "e = s + k"
    by (auto simp: indexOf_def)
  with Some show ?thesis
    by (auto simp: endIndexFrom_def slice_def dest: firstIndex_least)
qed

text \<open>
  One iteration of the traversal at a node that carries a parameter descriptor: the
  value is the slice from \<open>i + 1\<close> to the end index, it is assigned under the
  descriptor's name, and the loop goes on at \<open>i + 1\<close> in the node's children with the
  value cut out of the path.
\<close>

lemma traverseLoop_param_step:
  assumes "i \<le> length path" and "map_of t (slice path 0 i) = Some n" and "param n = Some p"
  shows "traverseLoop t prev ps i path =
     traverseLoop (childTree n) (Some n)
       (setParsedParam ps (name p) (slice path (i + 1) (endIndexFrom path (i + 1)))) (i + 1)
       (slice path 0 (i + 1) @ slice path (endIndexFrom path (i + 1)) (length path))"
  using assms by (subst traverseLoop.simps) (simp add: Let_def)

lemma param_capture_example:
  "lookup (snd (get (RadixRouter nf) (Str ''/items/:id'') (Fun h))) ''GET'' ''/items/42''
     = Inr (Call h (Some [(''id'', ''42'')]))"
  by code_simp

lemma items_id_router:
  "snd (get (RadixRouter nf) (Str ''/items/:id'') (Fun h)) =
     \<lparr>treeByMethod =
        [(''GET'',
          [(''/'', Node ''/''
            [(''/i'', Node ''/i''
              [(''/it'', Node ''/it''
                [(''/ite'', Node ''/ite''
                  [(''/item'', Node ''/item''
                    [(''/items'', Node ''/items''
                      [(''/items/'', Node ''/items/'' [] None (Some h))]
                      (Some \<lparr>name = ''id'', startIndex = 7, endIndex = 10\<rparr>) None)]
                    None None)]
                  None None)]
                None None)]
              None None)]
            None None)])],
      notFondHandler = (case nf of Some cb \<Rightarrow> cb | None \<Rightarrow> noopFn)\<rparr>"
  by code_simp

lemma param_capture_any_value:
  assumes "v \<noteq> []" and "CHR ''/'' \<notin> set v" and "CHR ''?'' \<notin> set v"
  shows "lookup (snd (get (RadixRouter nf) (Str ''/items/:id'') (Fun h))) ''GET'' (''/items/'' @ v)
     = Inr (Call h (Some [(''id'', v)]))"
proof -
  have "last v \<noteq> CHR ''/''" using assms(1,2) by (metis last_in_set)
  then have cp: "clearPath (''/items/'' @ v) = ''/items/'' @ v"
    using assms(1) by (intro clearPath_id) simp
  have e: "endIndexFrom (''/items/'' @ v) 7 = 7 + length v"
    using assms(2,3) by (simp add: endIndexFrom_def indexOf_def firstIndex_None)
  show ?thesis
    unfolding items_id_router lookup_def cp traverseForHandler_def Tree_traverse_def
    using e
    by (simp add: getProperty_def traverseLoop.simps slice_def Let_def setParsedParam_def
        eval_nat_numeral)
qed

section \<open>What a registration and a lookup can throw\<close>

lemma Tree_build_error: "Tree_build t p h = Inl e \<Longrightarrow> e = TypeError"
  by (auto simp: Tree_build_def Let_def split: if_splits option.splits)

lemma buildTree_error: "fst (buildTree r m p f) \<noteq> Some (AssertionError msg)"
  by (auto simp: buildTree_def split: property.splits sum.splits dest: Tree_build_error)

lemma parseParams_colon:
  "p \<in> set (parseParams path cursor) \<Longrightarrow>
     startIndex p < length path \<and> path ! startIndex p = CHR '':''"
proof (induction path cursor rule: parseParams.induct)
  case (1 path cursor)
  show ?case
  proof (cases "indexOf path CHR '':'' cursor")
    case None
    with "1.prems" show ?thesis by (simp add: parseParams.simps [of path cursor])
  next
    case (Some s)
    show ?thesis
    proof (cases "0 < s")
      case False
      with Some "1.prems" show ?thesis by (simp add: parseParams.simps [of path cursor])
    next
      case True
      from Some have s: "s < length path" "path ! s = CHR '':''"
        by (auto dest!: indexOf_Some)
      from "1.prems" Some True
      consider "startIndex p = s" | "p \<in> set (parseParams path (endIndexFrom path s))"
        by (auto simp: Let_def parseParams.simps [of path cursor])
      then show ?thesis
      proof cases
        case 1
        with s show ?thesis by simp
      next
        case 2
        with "1.IH" [OF Some True refl] show ?thesis by simp
      qed
    qed
  qed
qed

text \<open>
  The build throws only when a parameter starts at index 1, that is, when the second
  character of the path is a colon.
\<close>

lemma Tree_build_returns:
  assumes "length path \<le> 1 \<or> path ! 1 \<noteq> CHR '':''"
  shows "\<exists>tree'. Tree_build tree path handler = Inr tree'"
proof -
  have "getAtPathIndex (Params path) 1 = None"
  proof (cases "getAtPathIndex (Params path) 1")
    case (Some p)
    then have "p \<in> set (parseParams path 0)" "startIndex p = 1"
      by (auto simp: getAtPathIndex_def Params_def find_Some_iff)
    with parseParams_colon [of p path 0] assms show ?thesis by auto
  qed simp
  then show ?thesis by (simp add: Tree_build_def Let_def)
qed

lemma register_returns:
  assumes "validatePath path = Inr p" and "validateHandler handler = Inr f"
    and "getProperty (treeByMethod r) m \<noteq> Inherited"
    and "length p \<le> 1 \<or> p ! 1 \<noteq> CHR '':''"
  shows "fst (register r m path handler) = None"
proof -
  from Tree_build_returns [OF assms(4)]
  obtain t1 where "Tree_build (case getProperty (treeByMethod r) m of Own t \<Rightarrow> t | _ \<Rightarrow> []) p f = Inr t1"
    by blast
  with assms(1,2,3) show ?thesis
    by (auto simp: register_def buildTree_def split: property.splits)
qed

text \<open>
  A lookup throws only for a method that is an inherited name and not a method with a
  tree; otherwise it is one call, of the not-found handler without argument when no
  route matches.
\<close>

lemma lookup_returns:
  assumes "getProperty (treeByMethod r) m \<noteq> Inherited"
  shows "lookup r m path =
     Inr (case Tree_traverse (trieOf r m) (clearPath path) of
            Some (h, ps) \<Rightarrow> Call h (Some ps)
          | None \<Rightarrow> Call (notFondHandler r) None)"
  using assms
  by (auto simp: lookup_def traverseForHandler_def getProperty_def trieOf_def Tree_traverse_Nil
      split: option.splits if_splits)

text \<open>
  The validators on their own: a registration throws an AssertionError exactly when the
  path is no string, or does not start with \<open>/\<close>, or ends with \<open>/\<close> while longer than
  one character, or ends with \<open>:\<close>, or when the handler is no function; and then it
  leaves the router as it was.
\<close>

lemma register_validation:
  "((\<exists>msg. fst (register r m path handler) = Some (AssertionError msg)) \<longleftrightarrow>
      (typeof path \<noteq> ''string'' \<or>
       (\<exists>s. path = Str s \<and>
          (take 1 s \<noteq> ''/'' \<or> (1 < length s \<and> last s = CHR ''/'') \<or>
           (s \<noteq> [] \<and> last s = CHR '':''))) \<or>
       typeof handler \<noteq> ''function'')) \<and>
   ((\<exists>msg. fst (register r m path handler) = Some (AssertionError msg)) \<longrightarrow>
      snd (register r m path handler) = r)"
proof -
  have start: "startsWith s CHR ''/'' \<longleftrightarrow> take 1 s = ''/''" for s
    by (cases s) (auto simp: startsWith_def)
  show ?thesis
    by (cases path; cases handler)
      (auto simp: register_def validatePath_def validateHandler_def start endsWith_def
        buildTree_error)
qed

section \<open>The claims\<close>




text \<open>
  C2, as the code has it: the first registration wins. A registration that returned
  normally leaves, when it is repeated with another handler, the router exactly as it
  was, and returns normally again; so every lookup goes on as after the first
  registration. On a new router, for a path without dynamic segment, the lookup of the
  path after both registrations calls the first handler.
\<close>

theorem first_registration_wins:
  "(fst (register r m path handler1) = None \<longrightarrow>
      register (snd (register r m path handler1)) m path (Fun f2)
        = (None, snd (register r m path handler1))) \<and>
   (validatePath (Str p) = Inr p \<and> Params p = [] \<and> m \<notin> set objectPrototypeKeys \<longrightarrow>
      lookup (registerAll (RadixRouter nf) [(m, p, f1), (m, p, f2)]) m p
        = Inr (Call f1 (Some [])))"
proof (intro conjI impI)
  assume "fst (register r m path handler1) = None"
  then have "register r m path handler1 = (None, snd (register r m path handler1))"
    by (simp add: prod_eq_iff)
  then show "register (snd (register r m path handler1)) m path (Fun f2)
        = (None, snd (register r m path handler1))"
    by (rule register_idem)
next
  assume a: "validatePath (Str p) = Inr p \<and> Params p = [] \<and> m \<notin> set objectPrototypeKeys"
  then have regs: "\<forall>(m', p', h') \<in> set [(m, p, f1), (m, p, f2)].
      validatePath (Str p') = Inr p' \<and> Params p' = [] \<and> m' \<notin> set objectPrototypeKeys"
    by simp
  from a have "clearPath p = p" "p \<noteq> []" by (auto dest: validatePath_Inr)
  with lookup_registerAll_static [OF regs, of m nf p] a
  show "lookup (registerAll (RadixRouter nf) [(m, p, f1), (m, p, f2)]) m p
        = Inr (Call f1 (Some []))"
    by simp
qed

theorem first_registration_wins_witness:
  "register (snd (get (RadixRouter None) (Str ''/items/:id'') (Fun (Fn 1)))) ''GET''
      (Str ''/items/:id'') (Fun (Fn 2))
     = (None, snd (get (RadixRouter None) (Str ''/items/:id'') (Fun (Fn 1)))) \<and>
   lookup (registerAll (RadixRouter None) [(''GET'', ''/a'', Fn 1), (''GET'', ''/a'', Fn 2)])
      ''GET'' ''/a''
     = Inr (Call (Fn 1) (Some []))"
proof -
  have 1: "fst (register (RadixRouter None) ''GET'' (Str ''/items/:id'') (Fun (Fn 1))) = None"
    by code_simp
  have 2: "validatePath (Str ''/a'') = Inr ''/a'' \<and> Params ''/a'' = [] \<and>
      ''GET'' \<notin> set objectPrototypeKeys"
    by code_simp
  from first_registration_wins
    [of "RadixRouter None" "''GET''" "Str ''/items/:id''" "Fun (Fn 1)" "Fn 2" "''/a''" None "Fn 1"]
    1 2
  show ?thesis by (simp add: get_def)
qed

text \<open>
  C2 as stated fails: after \<open>get('/a', h1)\<close> and \<open>get('/a', h2)\<close> the lookup of \<open>/a\<close>
  calls \<open>h1\<close>. (No error is raised by the second call: that part holds.)
\<close>

theorem last_write_wins_counterexample:
  "fst (get (snd (get (RadixRouter None) (Str ''/a'') (Fun (Fn 1)))) (Str ''/a'') (Fun (Fn 2)))
     = None \<and>
   lookup (snd (get (snd (get (RadixRouter None) (Str ''/a'') (Fun (Fn 1))))
                  (Str ''/a'') (Fun (Fn 2)))) ''GET'' ''/a''
     = Inr (Call (Fn 1) (Some [])) \<and>
   Fn 1 \<noteq> Fn 2"
  by code_simp


text \<open>
  C3, at the input where the code leaves it. The pattern \<open>/items/:__proto__\<close> passes
  validation and is built; the lookup of \<open>/items/42\<close> finds the handler, and the captured
  value \<open>42\<close> is assigned to \<open>parsedParams["__proto__"]\<close>, which creates no property: the
  handler receives an empty mapping, not one that holds the value under the
  descriptor's name. (For the pattern \<open>/items/:id\<close> the value is recorded, see
  \<open>param_capture_example\<close> and \<open>param_capture_any_value\<close>, and
  \<open>traverseLoop_param_step\<close> is the iteration the claim describes.)
\<close>

theorem proto_param_dropped:
  "fst (get (RadixRouter nf) (Str ''/items/:__proto__'') (Fun h)) = None \<and>
   lookup (snd (get (RadixRouter nf) (Str ''/items/:__proto__'') (Fun h))) ''GET'' ''/items/42''
     = Inr (Call h (Some []))"
  by code_simp

text \<open>
  C4, at the input where the code leaves it. The path \<open>/:id\<close> passes validation, and the
  build throws a TypeError: in the first iteration a parameter starts at index 1 while
  the variable \<open>node\<close> is still undefined.
\<close>

theorem build_param_at_root_raises:
  "validatePath (Str ''/:id'') = Inr ''/:id'' \<and>
   fst (get (RadixRouter nf) (Str ''/:id'') (Fun h)) = Some TypeError"
  by code_simp

text \<open>
  C5. After registering only \<open>/items/:id\<close>, the lookup of \<open>/items/42/extra\<close> calls the
  not-found handler with no parameter mapping: the loop leaves \<open>node\<close> undefined, since
  after the capture the collapsed path goes on with \<open>/extra\<close> and the Leaf has no child.
\<close>

theorem literal_continuation_not_found:
  "fst (get (RadixRouter nf) (Str ''/items/:id'') (Fun h)) = None \<and>
   lookup (snd (get (RadixRouter nf) (Str ''/items/:id'') (Fun h))) ''GET'' ''/items/42/extra''
     = Inr (Call (notFondHandler (RadixRouter nf)) None) \<and>
   fst (traverseLoop (trieOf (snd (get (RadixRouter nf) (Str ''/items/:id'') (Fun h))) ''GET'')
      None [] 1 ''/items/42/extra'') = None"
  by code_simp

text \<open>
  C6, as the code has it. Take any sequence of registrations whose paths pass validation
  and have no dynamic segment, a route \<open>(m, q, h)\<close> of it, and a non-empty strict prefix
  \<open>p\<close> of \<open>q\<close> such that \<open>p\<close> with one trailing slash stripped (the path the lookup
  traverses) was never registered under \<open>m\<close>. Then the lookup of \<open>p\<close> under \<open>m\<close> calls
  the not-found handler, and the traversal ends on a node that is no Leaf. And for
  every tree and path, the traversal yields a match exactly when the variable \<open>node\<close>
  holds a Leaf as the loop is left (a dead end leaves it undefined).
\<close>

theorem strict_prefix_no_match_static:
  assumes "\<forall>(m', p', h') \<in> set regs.
      validatePath (Str p') = Inr p' \<and> Params p' = [] \<and> m' \<notin> set objectPrototypeKeys"
    and "(m, q, h) \<in> set regs" and "strict_prefix p q" and "p \<noteq> []"
    and "\<forall>(m', p', h') \<in> set regs. m' = m \<longrightarrow> p' \<noteq> clearPath p"
  shows "lookup (registerAll (RadixRouter nf) regs) m p
       = Inr (Call (notFondHandler (RadixRouter nf)) None) \<and>
     (\<exists>n. fst (traverseLoop (trieOf (registerAll (RadixRouter nf) regs) m) None [] 1 (clearPath p))
            = Some n \<and> leaf n = None) \<and>
     (\<forall>t path. (Tree_traverse t path \<noteq> None) =
        (\<exists>n. fst (traverseLoop t None [] 1 path) = Some n \<and> leaf n \<noteq> None))"
proof (intro conjI allI)
  let ?R = "registerAll (RadixRouter nf) regs"
  let ?P = "\<lambda>(m', p', h'). m' = m \<and> prefix (clearPath p) p'"
  from assms(1,2) have m: "m \<notin> set objectPrototypeKeys" by auto
  have "prefix (clearPath p) q"
    using clearPath_prefix [of p] assms(3) by (auto simp: strict_prefix_def)
  with assms(2) have "find ?P regs \<noteq> None" by (auto simp: find_None_iff)
  then obtain m' x h' where f: "find ?P regs = Some (m', x, h')" by auto
  from find_SomeD [OF f] assms(5) have x: "x \<noteq> clearPath p" by auto
  from lookup_registerAll_static [OF assms(1) m, of nf p] f x
  show "lookup ?R m p = Inr (Call (notFondHandler (RadixRouter nf)) None)" by simp
  from assms(4) have ne: "clearPath p \<noteq> []" by (simp add: clearPath_Nil_iff)
  from registerAll_static [OF assms(1) noParamsR_RadixRouter, of nf m "clearPath p"] f x ne
  have "status (trieOf ?R m) (clearPath p) = Some None" by auto
  then show "\<exists>n. fst (traverseLoop (trieOf ?R m) None [] 1 (clearPath p)) = Some n \<and> leaf n = None"
    by (auto simp: status_def reached_def)
next
  fix t path
  show "(Tree_traverse t path \<noteq> None) =
        (\<exists>n. fst (traverseLoop t None [] 1 path) = Some n \<and> leaf n \<noteq> None)"
    by (cases "traverseLoop t None [] 1 path")
      (auto simp: Tree_traverse_def split: option.splits)
qed

theorem strict_prefix_no_match_static_witness:
  "lookup (registerAll (RadixRouter None) [(''GET'', ''/a/b'', Fn 1), (''GET'', ''/a/bc'', Fn 2)])
      ''GET'' ''/a/''
     = Inr (Call noopFn None) \<and>
   (\<exists>n. fst (traverseLoop
          (trieOf (registerAll (RadixRouter None)
             [(''GET'', ''/a/b'', Fn 1), (''GET'', ''/a/bc'', Fn 2)]) ''GET'')
          None [] 1 ''/a'') = Some n \<and> leaf n = None)"
proof -
  have 1: "\<forall>(m', p', h') \<in> set [(''GET'', ''/a/b'', Fn 1), (''GET'', ''/a/bc'', Fn 2)].
      validatePath (Str p') = Inr p' \<and> Params p' = [] \<and> m' \<notin> set objectPrototypeKeys"
    by code_simp
  have 2: "(''GET'', ''/a/b'', Fn 1) \<in> set [(''GET'', ''/a/b'', Fn 1), (''GET'', ''/a/bc'', Fn 2)]"
    by simp
  have 3: "strict_prefix ''/a/'' ''/a/b''" by (simp add: strict_prefix_def)
  have 4: "''/a/'' \<noteq> []" by simp
  have c: "clearPath ''/a/'' = ''/a''" by code_simp
  have 5: "\<forall>(m', p', h') \<in> set [(''GET'', ''/a/b'', Fn 1), (''GET'', ''/a/bc'', Fn 2)].
      m' = ''GET'' \<longrightarrow> p' \<noteq> clearPath ''/a/''"
    by (simp add: c)
  have nf: "notFondHandler (RadixRouter None) = noopFn" by (simp add: RadixRouter_def)
  from strict_prefix_no_match_static [OF 1 2 3 4 5, of None] show ?thesis
    by (simp add: c nf)
qed

text \<open>
  C6 as stated fails in two ways, each by design. The lookup strips one trailing slash:
  \<open>/a/\<close> is a strict prefix of the registered \<open>/a/b\<close> and was never registered, yet its
  lookup matches the route \<open>/a\<close>. And a dynamic segment matches any value: \<open>/items/:\<close>
  is a strict prefix of the registered \<open>/items/:id\<close> and its lookup matches that route
  with the value \<open>:\<close>.
\<close>

theorem strict_prefix_matched_counterexample:
  "strict_prefix ''/a/'' ''/a/b'' \<and>
   lookup (registerAll (RadixRouter None) [(''GET'', ''/a'', Fn 1), (''GET'', ''/a/b'', Fn 2)])
      ''GET'' ''/a/''
     = Inr (Call (Fn 1) (Some [])) \<and>
   strict_prefix ''/items/:'' ''/items/:id'' \<and>
   lookup (snd (get (RadixRouter None) (Str ''/items/:id'') (Fun (Fn 1)))) ''GET'' ''/items/:''
     = Inr (Call (Fn 1) (Some [(''id'', '':'')]))"
  by code_simp

text \<open>
  C7, at the input where the code leaves it. The path \<open>/:id\<close> is a string that starts
  with \<open>/\<close> and ends neither with \<open>/\<close> nor with \<open>:\<close>, and the handler is a function: both
  validators pass. Yet the registration fails, with the TypeError of the build, and it
  does not leave the router as it was: the empty Tree made for the method stays in
  \<open>#treeByMethod\<close>.
\<close>

theorem register_fails_outside_validation:
  "validatePath (Str ''/:id'') = Inr ''/:id'' \<and>
   validateHandler (Fun h) = Inr h \<and>
   register (RadixRouter nf) ''GET'' (Str ''/:id'') (Fun h)
     = (Some TypeError, (RadixRouter nf)\<lparr>treeByMethod := [(''GET'', [])]\<rparr>) \<and>
   snd (register (RadixRouter nf) ''GET'' (Str ''/:id'') (Fun h)) \<noteq> RadixRouter nf"
  by code_simp

text \<open>
  C8, at the input where the code leaves it. On a router with no route at all, the lookup
  of method \<open>constructor\<close> throws a TypeError instead of calling the not-found handler:
  \<open>this.#treeByMethod["constructor"]\<close> is the inherited \<open>Object\<close> function, which is
  truthy and has no method \<open>traverse\<close>.
\<close>

theorem lookup_inherited_method_raises:
  "lookup (RadixRouter nf) ''constructor'' ''/'' = Inl TypeError"
  by code_simp

text \<open>
  C9. Exactly one trailing slash is stripped: the lookup of \<open>p/\<close> is the lookup of \<open>p\<close>
  for every non-empty \<open>p\<close> that has no trailing slash to strip itself; a path of at most
  one character, or without a trailing slash, is traversed as it is; of two trailing
  slashes one is left. So \<open>/items/\<close> matches the route \<open>/items\<close>, \<open>//\<close> matches the root
  route, and \<open>/items//\<close> does not match the route \<open>/items\<close>.
\<close>

theorem trailing_slash_normalization:
  "(p \<noteq> [] \<and> (length p = 1 \<or> last p \<noteq> CHR ''/'') \<longrightarrow>
      lookup r m (p @ ''/'') = lookup r m p) \<and>
   (length q \<le> 1 \<or> last q \<noteq> CHR ''/'' \<longrightarrow> clearPath q = q) \<and>
   (q \<noteq> [] \<longrightarrow> clearPath (q @ ''/'') = q) \<and>
   lookup (snd (get (RadixRouter nf) (Str ''/items'') (Fun h))) ''GET'' ''/items/''
     = Inr (Call h (Some [])) \<and>
   lookup (snd (get (RadixRouter nf) (Str ''/'') (Fun h))) ''GET'' ''//''
     = Inr (Call h (Some [])) \<and>
   lookup (snd (get (RadixRouter nf) (Str ''/items'') (Fun h))) ''GET'' ''/items//''
     = Inr (Call (notFondHandler (RadixRouter nf)) None)"
proof (intro conjI impI)
  assume a: "p \<noteq> [] \<and> (length p = 1 \<or> last p \<noteq> CHR ''/'')"
  then have "clearPath (p @ ''/'') = p" "clearPath p = p"
    by (auto simp: clearPath_append_slash clearPath_id)
  then show "lookup r m (p @ ''/'') = lookup r m p" by (simp add: lookup_def)
next
  assume "length q \<le> 1 \<or> last q \<noteq> CHR ''/''"
  then show "clearPath q = q" by (rule clearPath_id)
next
  assume "q \<noteq> []"
  then show "clearPath (q @ ''/'') = q" by (rule clearPath_append_slash)
next
  show "lookup (snd (get (RadixRouter nf) (Str ''/items'') (Fun h))) ''GET'' ''/items/''
     = Inr (Call h (Some []))"
    by code_simp
next
  show "lookup (snd (get (RadixRouter nf) (Str ''/'') (Fun h))) ''GET'' ''//''
     = Inr (Call h (Some []))"
    by code_simp
next
  show "lookup (snd (get (RadixRouter nf) (Str ''/items'') (Fun h))) ''GET'' ''/items//''
     = Inr (Call (notFondHandler (RadixRouter nf)) None)"
    by code_simp
qed

theorem trailing_slash_normalization_witness:
  "lookup (snd (get (RadixRouter None) (Str ''/a/b'') (Fun (Fn 1)))) ''GET'' ''/a/b/''
     = Inr (Call (Fn 1) (Some [])) \<and>
   clearPath ''/a/b//'' = ''/a/b/'' \<and> clearPath ''/'' = ''/''"
proof -
  have 1: "''/a/b'' \<noteq> [] \<and> (length ''/a/b'' = 1 \<or> last ''/a/b'' \<noteq> CHR ''/'')" by simp
  have 2: "lookup (snd (get (RadixRouter None) (Str ''/a/b'') (Fun (Fn 1)))) ''GET'' ''/a/b''
     = Inr (Call (Fn 1) (Some []))"
    by code_simp
  have 3: "length ''/'' \<le> 1 \<or> last ''/'' \<noteq> CHR ''/''" by simp
  have 4: "''/a/b/'' \<noteq> []" by simp
  from trailing_slash_normalization
    [of "''/a/b''" "snd (get (RadixRouter None) (Str ''/a/b'') (Fun (Fn 1)))" "''GET''"
      "''/''" None "Fn 1"]
    trailing_slash_normalization [of "''/a/b''" "RadixRouter None" "''GET''" "''/a/b/''" None "Fn 1"]
    1 2 3 4
  show ?thesis by simp
qed

text \<open>
  C10. A registration under method \<open>m1\<close>, whatever its path and handler and whether it
  returns or throws, leaves every lookup under another method \<open>m2\<close> as it was: the same
  call of the same function with the same argument, or the same error.
\<close>

theorem per_method_isolation:
  "m1 \<noteq> m2 \<Longrightarrow> lookup (snd (register r m1 path handler)) m2 q = lookup r m2 q"
  using register_frame [of r m1 path handler] by (auto simp: lookup_frame)

theorem per_method_isolation_witness:
  "''GET'' \<noteq> ''POST'' \<and>
   lookup (snd (register (snd (register (RadixRouter None) ''POST'' (Str ''/a'') (Fun (Fn 1))))
                 ''GET'' (Str ''/a'') (Fun (Fn 2)))) ''POST'' ''/a''
     = Inr (Call (Fn 1) (Some []))"
proof -
  have ne: "''GET'' \<noteq> ''POST''" by simp
  have "lookup (snd (register (RadixRouter None) ''POST'' (Str ''/a'') (Fun (Fn 1)))) ''POST'' ''/a''
     = Inr (Call (Fn 1) (Some []))"
    by code_simp
  with ne per_method_isolation [OF ne] show ?thesis by simp
qed

end
